theory Spec2Isabelle
  imports Main "HOL-Library.Word"
begin

section \<open>Identifiers and entries\<close>

text \<open>
  Modelled from the spec: the header \<^verbatim>\<open>osmium/osm/types.hpp\<close> that declares
  \<^verbatim>\<open>osmium::unsigned_object_id_type\<close> is not part of the sources at hand. The spec
  describes the logical identifier as wider than the 32-bit internal storage; libosmium
  declares it as \<^verbatim>\<open>uint64_t\<close>. Both instantiations of \<^verbatim>\<open>flat_map\<close> in
  \<^verbatim>\<open>relations_map.hpp\<close> use \<^verbatim>\<open>uint32_t\<close> for \<^verbatim>\<open>TKeyInternal\<close> and
  \<^verbatim>\<open>TValueInternal\<close>.
\<close>

type_synonym unsigned_object_id_type = "64 word"
type_synonym uint32_t = "32 word"

text \<open>
  \<^verbatim>\<open>struct kv_pair { TKeyInternal key; TValueInternal value; }\<close>. The second
  field is written \<open>value'\<close> here.
\<close>

record kv_pair =
  key :: uint32_t
  value' :: uint32_t

text \<open>
  The two constructors of \<^verbatim>\<open>kv_pair\<close>: both narrow with
  \<^verbatim>\<open>static_cast\<close>, which for unsigned integers keeps the low 32 bits; the
  one-argument constructor value-initialises \<^verbatim>\<open>value\<close>.
\<close>

definition kv_pair1 :: "unsigned_object_id_type \<Rightarrow> kv_pair" where
  "kv_pair1 key_id = \<lparr>key = ucast key_id, value' = 0\<rparr>"

definition kv_pair2 :: "unsigned_object_id_type \<Rightarrow> unsigned_object_id_type \<Rightarrow> kv_pair" where
  "kv_pair2 key_id value_id = \<lparr>key = ucast key_id, value' = ucast value_id\<rparr>"

text \<open>
  \<^verbatim>\<open>operator<\<close> and \<^verbatim>\<open>operator==\<close> of \<^verbatim>\<open>kv_pair\<close>, through
  \<^verbatim>\<open>std::tie\<close>: the lexicographic comparison of tuples.
\<close>

definition kv_less :: "kv_pair \<Rightarrow> kv_pair \<Rightarrow> bool" where
  "kv_less a b = (key a < key b \<or> (key a = key b \<and> value' a < value' b))"

definition kv_eq :: "kv_pair \<Rightarrow> kv_pair \<Rightarrow> bool" where
  "kv_eq a b = (key a = key b \<and> value' a = value' b)"

section \<open>The flat map\<close>

text \<open>
  \<^verbatim>\<open>flat_map\<close> has one data member, the vector \<^verbatim>\<open>m_map\<close>; a flat map is the
  list of its entries.
\<close>

type_synonym flat_map = "kv_pair list"

text \<open>\<^verbatim>\<open>set(key, value)\<close>: \<^verbatim>\<open>m_map.emplace_back(key, value)\<close>.\<close>

definition set_kv :: "unsigned_object_id_type \<Rightarrow> unsigned_object_id_type \<Rightarrow> flat_map \<Rightarrow> flat_map" where
  "set_kv key_id value_id m = m @ [kv_pair2 key_id value_id]"

text \<open>\<^verbatim>\<open>flip_in_place\<close>: swap the two fields of every entry.\<close>

definition swap_kv :: "kv_pair \<Rightarrow> kv_pair" where
  "swap_kv p = \<lparr>key = value' p, value' = key p\<rparr>"

definition flip_in_place :: "flat_map \<Rightarrow> flat_map" where
  "flip_in_place m = map swap_kv m"

text \<open>
  \<^verbatim>\<open>flip_copy\<close>: a fresh map receives \<^verbatim>\<open>set(p.value, p.key)\<close> for every
  entry in turn. The stored 32-bit fields are widened to the parameter types of
  \<^verbatim>\<open>set\<close> and narrowed again by the constructor. The method is not
  \<^verbatim>\<open>const\<close>: the model returns the new map together with the receiver as it
  is afterwards.
\<close>

fun flip_copy_loop :: "kv_pair list \<Rightarrow> flat_map \<Rightarrow> flat_map" where
  "flip_copy_loop [] mp = mp"
| "flip_copy_loop (p # ps) mp = flip_copy_loop ps (set_kv (ucast (value' p)) (ucast (key p)) mp)"

definition flip_copy :: "flat_map \<Rightarrow> flat_map \<times> flat_map" where
  "flip_copy m = (flip_copy_loop m [], m)"

text \<open>
  \<^verbatim>\<open>std::sort\<close> with \<^verbatim>\<open>operator<\<close>. The comparison is a strict total
  order on entries, so the sorted vector is determined by its contents whatever the
  algorithm is; the model sorts by insertion.
\<close>

fun insort_kv :: "kv_pair \<Rightarrow> kv_pair list \<Rightarrow> kv_pair list" where
  "insort_kv x [] = [x]"
| "insort_kv x (y # ys) = (if kv_less y x then y # insort_kv x ys else x # y # ys)"

fun std_sort :: "kv_pair list \<Rightarrow> kv_pair list" where
  "std_sort [] = []"
| "std_sort (x # xs) = insort_kv x (std_sort xs)"

text \<open>
  \<^verbatim>\<open>std::unique\<close> with \<^verbatim>\<open>operator==\<close>: of every run of consecutive equal
  entries the first is kept. The list returned is the part of the vector before the
  iterator \<^verbatim>\<open>last\<close>, which is what \<^verbatim>\<open>erase(last, end())\<close> leaves.
\<close>

fun std_unique :: "kv_pair list \<Rightarrow> kv_pair list" where
  "std_unique [] = []"
| "std_unique [x] = [x]"
| "std_unique (x # y # ys) = (if kv_eq x y then std_unique (x # ys) else x # std_unique (y # ys))"

definition sort_unique :: "flat_map \<Rightarrow> flat_map" where
  "sort_unique m = std_unique (std_sort m)"

text \<open>
  \<^verbatim>\<open>get(key)\<close>: \<^verbatim>\<open>std::equal_range\<close> over the whole vector with the probe
  \<^verbatim>\<open>kv_pair{key}\<close> and a comparison of the keys only. The standard defines the
  result as the pair of \<^verbatim>\<open>std::lower_bound\<close> and \<^verbatim>\<open>std::upper_bound\<close>; both
  are the usual binary searches over a window \<open>first\<close>, \<open>len\<close>. Iterators are
  positions in the list. The window always lies inside the list when the search starts
  from \<open>0\<close> and \<open>length m\<close>.
\<close>

definition key_less :: "kv_pair \<Rightarrow> kv_pair \<Rightarrow> bool" where
  "key_less lhs rhs = (key lhs < key rhs)"

function lower_bound :: "kv_pair list \<Rightarrow> kv_pair \<Rightarrow> nat \<Rightarrow> nat \<Rightarrow> nat" where
  "lower_bound xs v first len =
     (if len = 0 then first
      else let half = len div 2; middle = first + half in
        if key_less (xs ! middle) v then lower_bound xs v (middle + 1) (len - half - 1)
        else lower_bound xs v first half)"
  by pat_completeness auto
termination
  by (relation "measure (\<lambda>(xs, v, first, len). len)") auto

function upper_bound :: "kv_pair list \<Rightarrow> kv_pair \<Rightarrow> nat \<Rightarrow> nat \<Rightarrow> nat" where
  "upper_bound xs v first len =
     (if len = 0 then first
      else let half = len div 2; middle = first + half in
        if key_less v (xs ! middle) then upper_bound xs v first half
        else upper_bound xs v (middle + 1) (len - half - 1))"
  by pat_completeness auto
termination
  by (relation "measure (\<lambda>(xs, v, first, len). len)") auto

definition get :: "flat_map \<Rightarrow> unsigned_object_id_type \<Rightarrow> nat \<times> nat" where
  "get m key_id =
     (lower_bound m (kv_pair1 key_id) 0 (length m), upper_bound m (kv_pair1 key_id) 0 (length m))"

definition empty_map :: "flat_map \<Rightarrow> bool" where
  "empty_map m = (m = [])"

definition size_map :: "flat_map \<Rightarrow> nat" where
  "size_map m = length m"

section \<open>The index\<close>

text \<open>\<^verbatim>\<open>RelationsMapIndex\<close> wraps one flat map.\<close>

datatype RelationsMapIndex = RelationsMapIndex (index_map: flat_map)

text \<open>
  The loop \<^verbatim>\<open>for (it = parents.first; it != parents.second; ++it) func(it->value)\<close>.
  The visitor is a state transformer: it receives the stored 32-bit value and the state
  of the caller so far. Incrementing \<open>it\<close> past the end of the vector without meeting
  \<open>end_it\<close> has no defined behaviour in the source and is \<open>None\<close> here.
\<close>

function for_each_loop ::
  "flat_map \<Rightarrow> nat \<Rightarrow> nat \<Rightarrow> (uint32_t \<Rightarrow> 's \<Rightarrow> 's) \<Rightarrow> 's \<Rightarrow> 's option" where
  "for_each_loop xs it end_it func st =
     (if it = end_it then Some st
      else if it < length xs then for_each_loop xs (Suc it) end_it func (func (value' (xs ! it)) st)
      else None)"
  by pat_completeness auto
termination
  by (relation "measure (\<lambda>(xs, it, end_it, func, st). length xs - it)") auto

definition for_each_parent ::
  "RelationsMapIndex \<Rightarrow> unsigned_object_id_type \<Rightarrow> (uint32_t \<Rightarrow> 's \<Rightarrow> 's) \<Rightarrow> 's \<Rightarrow> 's option" where
  "for_each_parent idx member_id func st =
     (let parents = get (index_map idx) member_id
      in for_each_loop (index_map idx) (fst parents) (snd parents) func st)"

definition for_each ::
  "RelationsMapIndex \<Rightarrow> unsigned_object_id_type \<Rightarrow> (uint32_t \<Rightarrow> 's \<Rightarrow> 's) \<Rightarrow> 's \<Rightarrow> 's option" where
  "for_each idx rid func st =
     (let parents = get (index_map idx) rid
      in for_each_loop (index_map idx) (fst parents) (snd parents) func st)"

text \<open>A visitor that records its arguments in call order.\<close>

definition record_call :: "uint32_t \<Rightarrow> uint32_t list \<Rightarrow> uint32_t list" where
  "record_call v calls = calls @ [v]"

definition empty_index :: "RelationsMapIndex \<Rightarrow> bool" where
  "empty_index idx = empty_map (index_map idx)"

definition size_index :: "RelationsMapIndex \<Rightarrow> nat" where
  "size_index idx = size_map (index_map idx)"

text \<open>\<^verbatim>\<open>RelationsMapIndexes\<close>: both directions; emptiness and size ask the first.\<close>

record RelationsMapIndexes =
  m_member_to_parent :: RelationsMapIndex
  m_parent_to_member :: RelationsMapIndex

definition member_to_parent :: "RelationsMapIndexes \<Rightarrow> RelationsMapIndex" where
  "member_to_parent ixs = m_member_to_parent ixs"

definition parent_to_member :: "RelationsMapIndexes \<Rightarrow> RelationsMapIndex" where
  "parent_to_member ixs = m_parent_to_member ixs"

definition empty_indexes :: "RelationsMapIndexes \<Rightarrow> bool" where
  "empty_indexes ixs = empty_index (m_member_to_parent ixs)"

definition size_indexes :: "RelationsMapIndexes \<Rightarrow> nat" where
  "size_indexes ixs = size_index (m_member_to_parent ixs)"

section \<open>Relations and their members\<close>

text \<open>
  Modelled from the spec: \<^verbatim>\<open>osmium/osm/item_type.hpp\<close> and
  \<^verbatim>\<open>osmium/osm/relation.hpp\<close> are not part of the sources at hand. The spec
  describes a relation record as its own identifier with an ordered sequence of members,
  each a type tag from a closed enumeration and a referenced identifier. The fields
  below are what the accessors \<^verbatim>\<open>type()\<close>, \<^verbatim>\<open>positive_ref()\<close>,
  \<^verbatim>\<open>positive_id()\<close> and \<^verbatim>\<open>members()\<close> return.
\<close>

datatype item_type =
  item_undefined | item_node | item_way | item_relation | item_area | item_changeset

record RelationMember =
  member_type :: item_type
  positive_ref :: unsigned_object_id_type

record Relation =
  positive_id :: unsigned_object_id_type
  members :: "RelationMember list"

section \<open>The stash\<close>

text \<open>
  \<^verbatim>\<open>RelationsMapStash\<close> as compiled without \<^verbatim>\<open>NDEBUG\<close>: the flag
  \<^verbatim>\<open>m_valid\<close> exists and every operation asserts it first. A failing
  \<^verbatim>\<open>assert\<close> ends the program; it is the error \<open>AssertionFailed\<close>.
\<close>

datatype error = AssertionFailed

record RelationsMapStash =
  m_map :: flat_map
  m_valid :: bool

text \<open>The default constructor: an empty map, \<^verbatim>\<open>m_valid = true\<close>.\<close>

definition RelationsMapStash_new :: RelationsMapStash where
  "RelationsMapStash_new = \<lparr>m_map = [], m_valid = True\<rparr>"

definition add ::
  "RelationsMapStash \<Rightarrow> unsigned_object_id_type \<Rightarrow> unsigned_object_id_type \<Rightarrow> error + RelationsMapStash" where
  "add s member_id relation_id =
     (if m_valid s then Inr (s\<lparr>m_map := set_kv member_id relation_id (m_map s)\<rparr>)
      else Inl AssertionFailed)"

fun add_members_loop :: "Relation \<Rightarrow> RelationMember list \<Rightarrow> flat_map \<Rightarrow> flat_map" where
  "add_members_loop r [] m = m"
| "add_members_loop r (member # rest) m =
     add_members_loop r rest
       (if member_type member = item_relation then set_kv (positive_ref member) (positive_id r) m
        else m)"

definition add_members :: "RelationsMapStash \<Rightarrow> Relation \<Rightarrow> error + RelationsMapStash" where
  "add_members s r =
     (if m_valid s then Inr (s\<lparr>m_map := add_members_loop r (members r) (m_map s)\<rparr>)
      else Inl AssertionFailed)"

definition empty_stash :: "RelationsMapStash \<Rightarrow> error + bool" where
  "empty_stash s = (if m_valid s then Inr (empty_map (m_map s)) else Inl AssertionFailed)"

definition size_stash :: "RelationsMapStash \<Rightarrow> error + nat" where
  "size_stash s = (if m_valid s then Inr (size_map (m_map s)) else Inl AssertionFailed)"

text \<open>
  The four build operations. Each returns the index together with the stash as it is
  left: \<^verbatim>\<open>m_valid\<close> is false, and the vector was moved from, which leaves a
  \<^verbatim>\<open>std::vector\<close> empty.
\<close>

definition build_index :: "RelationsMapStash \<Rightarrow> error + RelationsMapIndex \<times> RelationsMapStash" where
  "build_index s =
     (if m_valid s then
        let m = sort_unique (m_map s)
        in Inr (RelationsMapIndex m, s\<lparr>m_map := [], m_valid := False\<rparr>)
      else Inl AssertionFailed)"

definition build_member_to_parent_index ::
  "RelationsMapStash \<Rightarrow> error + RelationsMapIndex \<times> RelationsMapStash" where
  "build_member_to_parent_index s =
     (if m_valid s then
        let m = sort_unique (m_map s)
        in Inr (RelationsMapIndex m, s\<lparr>m_map := [], m_valid := False\<rparr>)
      else Inl AssertionFailed)"

definition build_parent_to_member_index ::
  "RelationsMapStash \<Rightarrow> error + RelationsMapIndex \<times> RelationsMapStash" where
  "build_parent_to_member_index s =
     (if m_valid s then
        let m = flip_in_place (m_map s);
            m = sort_unique m
        in Inr (RelationsMapIndex m, s\<lparr>m_map := [], m_valid := False\<rparr>)
      else Inl AssertionFailed)"

definition build_indexes :: "RelationsMapStash \<Rightarrow> error + RelationsMapIndexes \<times> RelationsMapStash" where
  "build_indexes s =
     (if m_valid s then
        let (reverse_map, m) = flip_copy (m_map s);
            reverse_map = sort_unique reverse_map;
            m = sort_unique m
        in Inr (\<lparr>m_member_to_parent = RelationsMapIndex m,
                 m_parent_to_member = RelationsMapIndex reverse_map\<rparr>,
                s\<lparr>m_map := [], m_valid := False\<rparr>)
      else Inl AssertionFailed)"

text \<open>A sequence of \<^verbatim>\<open>add\<close> calls on one stash, stopping at the first failure.\<close>

fun add_all ::
  "(unsigned_object_id_type \<times> unsigned_object_id_type) list \<Rightarrow> RelationsMapStash \<Rightarrow> error + RelationsMapStash" where
  "add_all [] s = Inr s"
| "add_all ((k, v) # rest) s = (case add s k v of Inl e \<Rightarrow> Inl e | Inr s' \<Rightarrow> add_all rest s')"

section \<open>Auxiliary notions\<close>

text \<open>Not greater in the order of \<^verbatim>\<open>operator<\<close>: what \<^verbatim>\<open>std::sort\<close> establishes between neighbours.\<close>

definition kv_le :: "kv_pair \<Rightarrow> kv_pair \<Rightarrow> bool" where
  "kv_le a b = (\<not> kv_less b a)"

section \<open>The order of entries\<close>


lemma kv_eq_iff: "kv_eq a b = (a = b)"
  by (auto simp: kv_eq_def)

lemma kv_less_irrefl: "\<not> kv_less a a"
  by (simp add: kv_less_def)

lemma kv_less_trans: "kv_less a b \<Longrightarrow> kv_less b c \<Longrightarrow> kv_less a c"
  by (auto simp: kv_less_def)

lemma kv_less_asym: "kv_less a b \<Longrightarrow> \<not> kv_less b a"
  by (auto simp: kv_less_def)

lemma kv_less_total: "\<not> kv_less a b \<Longrightarrow> \<not> kv_less b a \<Longrightarrow> a = b"
  by (auto simp: kv_less_def)


lemma kv_le_trans: "kv_le a b \<Longrightarrow> kv_le b c \<Longrightarrow> kv_le a c"
  unfolding kv_le_def kv_less_def by (auto simp: not_less)

lemma kv_less_le_trans: "kv_less a b \<Longrightarrow> kv_le b c \<Longrightarrow> kv_less a c"
  unfolding kv_le_def kv_less_def by (auto simp: not_less)

lemma set_insort_kv: "set (insort_kv x xs) = insert x (set xs)"
  by (induction xs) auto

lemma set_std_sort: "set (std_sort xs) = set xs"
  by (induction xs) (auto simp: set_insort_kv)

lemma sorted_insort_kv: "sorted_wrt kv_le xs \<Longrightarrow> sorted_wrt kv_le (insort_kv x xs)"
proof (induction xs)
  case Nil
  then show ?case by simp
next
  case (Cons y ys)
  show ?case
  proof (cases "kv_less y x")
    case True
    then have "kv_le y x" by (simp add: kv_le_def kv_less_asym)
    with Cons True show ?thesis by (auto simp: set_insort_kv)
  next
    case False
    then have xy: "kv_le x y" by (simp add: kv_le_def)
    have "\<forall>z\<in>set ys. kv_le x z" using Cons.prems xy by (auto intro: kv_le_trans)
    with Cons.prems xy False show ?thesis by simp
  qed
qed

lemma sorted_std_sort: "sorted_wrt kv_le (std_sort xs)"
  by (induction xs) (auto simp: sorted_insort_kv)

lemma set_std_unique: "set (std_unique xs) = set xs"
  by (induction xs rule: std_unique.induct) (auto simp: kv_eq_iff)

lemma strict_std_unique: "sorted_wrt kv_le xs \<Longrightarrow> sorted_wrt kv_less (std_unique xs)"
proof (induction xs rule: std_unique.induct)
  case 1 show ?case by simp
next
  case (2 x) show ?case by simp
next
  case (3 x y ys)
  show ?case
  proof (cases "kv_eq x y")
    case True
    with 3 show ?thesis by simp
  next
    case False
    then have ne: "x \<noteq> y" by (simp add: kv_eq_iff)
    have le: "\<forall>z\<in>set (y # ys). kv_le x z" using "3.prems" by simp
    have xy: "kv_less x y" using le ne kv_less_total[of x y] by (auto simp: kv_le_def)
    have "\<forall>z\<in>set ys. kv_le y z" using "3.prems" by simp
    then have "\<forall>z\<in>set (y # ys). kv_less x z"
      using xy by (auto intro: kv_less_le_trans)
    then have a: "\<forall>z\<in>set (std_unique (y # ys)). kv_less x z"
      by (simp only: set_std_unique)
    have b: "sorted_wrt kv_less (std_unique (y # ys))" using 3 False by simp
    have "std_unique (x # y # ys) = x # std_unique (y # ys)" using False by simp
    then show ?thesis using a b by (simp only: sorted_wrt.simps)
  qed
qed

lemma set_sort_unique: "set (sort_unique m) = set m"
  by (simp add: sort_unique_def set_std_unique set_std_sort)

lemma sorted_sort_unique: "sorted_wrt kv_less (sort_unique m)"
  by (simp add: sort_unique_def strict_std_unique sorted_std_sort)

lemma insort_kv_least: "\<forall>y\<in>set ys. kv_less x y \<Longrightarrow> insort_kv x ys = x # ys"
  by (cases ys) (auto dest: kv_less_asym)

lemma std_sort_sorted: "sorted_wrt kv_less xs \<Longrightarrow> std_sort xs = xs"
  by (induction xs) (auto simp: insort_kv_least)

lemma std_unique_sorted: "sorted_wrt kv_less xs \<Longrightarrow> std_unique xs = xs"
  by (induction xs rule: std_unique.induct) (auto simp: kv_eq_iff kv_less_irrefl)

lemma distinct_sorted_kv: "sorted_wrt kv_less xs \<Longrightarrow> distinct xs"
  by (induction xs) (auto simp: kv_less_irrefl)

section \<open>Sorting and deduplicating\<close>

text \<open>
  C6. \<^verbatim>\<open>sort_unique\<close> is idempotent: applied to any entry collection a second time,
  right after a first application, it leaves the collection exactly as it was.
\<close>

theorem sort_unique_idempotent: "sort_unique (sort_unique m) = sort_unique m"
proof -
  have s: "sorted_wrt kv_less (sort_unique m)" by (rule sorted_sort_unique)
  have "sort_unique (sort_unique m) = std_unique (std_sort (sort_unique m))"
    by (simp add: sort_unique_def)
  also have "\<dots> = std_unique (sort_unique m)" using s by (simp add: std_sort_sorted)
  also have "\<dots> = sort_unique m" using s by (rule std_unique_sorted)
  finally show ?thesis .
qed

theorem sort_unique_idempotent_witness:
  "sort_unique (sort_unique [\<lparr>key = 3, value' = 200\<rparr>, \<lparr>key = 1, value' = 100\<rparr>,
      \<lparr>key = 2, value' = 100\<rparr>, \<lparr>key = 1, value' = 100\<rparr>])
   = [\<lparr>key = 1, value' = 100\<rparr>, \<lparr>key = 2, value' = 100\<rparr>, \<lparr>key = 3, value' = 200\<rparr>]"
  using sort_unique_idempotent [of "[\<lparr>key = 3, value' = 200\<rparr>, \<lparr>key = 1, value' = 100\<rparr>,
      \<lparr>key = 2, value' = 100\<rparr>, \<lparr>key = 1, value' = 100\<rparr>]"]
  by (simp add: sort_unique_def kv_less_def kv_eq_def)

lemma sort_unique_length: "length (sort_unique m) = card (set m)"
proof -
  have "distinct (sort_unique m)" by (rule distinct_sorted_kv [OF sorted_sort_unique])
  then have "length (sort_unique m) = card (set (sort_unique m))"
    by (simp add: distinct_card)
  then show ?thesis by (simp add: set_sort_unique)
qed

section \<open>Narrowing and widening of identifiers\<close>

lemma narrow_widen: "(ucast (ucast (x :: uint32_t) :: unsigned_object_id_type) :: uint32_t) = x"
  by (rule ucast_up_ucast_id) (simp add: is_up)

lemma unat_narrow: "unat (ucast (x :: unsigned_object_id_type) :: uint32_t) = unat x mod 2 ^ 32"
  by (simp add: unsigned_ucast_eq take_bit_eq_mod)

lemma narrow_eq_iff:
  "((ucast (a :: unsigned_object_id_type) :: uint32_t) = ucast (b :: unsigned_object_id_type))
     = (unat a mod 2 ^ 32 = unat b mod 2 ^ 32)"
  by (simp add: word_unat_eq_iff unat_narrow)

lemma narrow_inj:
  assumes "unat (a :: unsigned_object_id_type) < 2 ^ 32" "unat (b :: unsigned_object_id_type) < 2 ^ 32"
  shows "((ucast a :: uint32_t) = ucast b) = (a = b)"
proof -
  have "((ucast a :: uint32_t) = ucast b) = (unat a mod 2 ^ 32 = unat b mod 2 ^ 32)"
    by (rule narrow_eq_iff)
  also have "\<dots> = (unat a = unat b)" using assms by simp
  also have "\<dots> = (a = b)" by (simp only: word_unat_eq_iff)
  finally show ?thesis .
qed

lemma widen_narrow:
  assumes "unat (a :: unsigned_object_id_type) < 2 ^ 32"
  shows "(ucast (ucast a :: uint32_t) :: unsigned_object_id_type) = a"
proof -
  let ?w = "ucast a :: uint32_t"
  have w: "unat ?w = unat a" using assms by (simp only: unat_narrow mod_less)
  have "unat (ucast ?w :: unsigned_object_id_type) = take_bit 64 (unat ?w)"
    using unsigned_ucast_eq [of ?w, where 'a = nat and 'c = 64] by simp
  also have "\<dots> = unat ?w"
    using assms by (simp only: w take_bit_nat_eq_self_iff) simp
  finally have "unat (ucast ?w :: unsigned_object_id_type) = unat a" by (simp only: w)
  then show ?thesis by (simp only: word_unat_eq_iff)
qed

section \<open>Flipping\<close>

lemma flip_copy_loop_eq: "flip_copy_loop ps mp = mp @ map swap_kv ps"
  by (induction ps arbitrary: mp) (simp_all add: set_kv_def kv_pair2_def swap_kv_def narrow_widen)

lemma inj_swap_kv: "inj swap_kv"
  by (rule injI) (simp add: swap_kv_def kv_pair.equality)

lemma length_sort_unique_flip: "length (sort_unique (map swap_kv m)) = length (sort_unique m)"
  by (simp add: sort_unique_length card_image inj_swap_kv [THEN inj_on_subset])

text \<open>
  C7. For every flat map, \<^verbatim>\<open>flip_copy\<close> returns a new map whose entries are the
  original's entries with key and value swapped, in the same order, and the original's
  entries are unchanged. The copy is not sorted by the operation: the sorted map
  \<open>[(1, 2), (2, 1)]\<close> has the copy \<open>[(2, 1), (1, 2)]\<close>.
\<close>

theorem flip_copy_swaps:
  "fst (flip_copy m) = map (\<lambda>p. \<lparr>key = value' p, value' = key p\<rparr>) m
   \<and> snd (flip_copy m) = m
   \<and> sorted_wrt kv_less [\<lparr>key = 1, value' = 2\<rparr>, \<lparr>key = 2, value' = 1\<rparr>]
   \<and> \<not> sorted_wrt kv_less (fst (flip_copy [\<lparr>key = 1, value' = 2\<rparr>, \<lparr>key = 2, value' = 1\<rparr>]))"
proof -
  have "map swap_kv m = map (\<lambda>p. \<lparr>key = value' p, value' = key p\<rparr>) m"
    by (simp add: swap_kv_def)
  then show ?thesis
    by (simp add: flip_copy_def flip_copy_loop_eq kv_less_def swap_kv_def)
qed

theorem flip_copy_swaps_witness:
  "flip_copy [\<lparr>key = 7, value' = 200\<rparr>, \<lparr>key = 9, value' = 200\<rparr>]
     = ([\<lparr>key = 200, value' = 7\<rparr>, \<lparr>key = 200, value' = 9\<rparr>],
        [\<lparr>key = 7, value' = 200\<rparr>, \<lparr>key = 9, value' = 200\<rparr>])"
  using flip_copy_swaps [of "[\<lparr>key = 7, value' = 200\<rparr>, \<lparr>key = 9, value' = 200\<rparr>]"]
  by (simp add: prod_eq_iff)

section \<open>The stash operations\<close>

lemma add_members_loop_eq:
  "add_members_loop r ms m =
     m @ map (\<lambda>mem. kv_pair2 (positive_ref mem) (positive_id r))
           (filter (\<lambda>mem. member_type mem = item_relation) ms)"
  by (induction ms arbitrary: m) (simp_all add: set_kv_def)

text \<open>
  C4. For every relation passed to \<^verbatim>\<open>add_members\<close> on a usable stash, the entries
  appended are exactly one pair (referenced id, relation id) for each member whose type
  is the relation type, in member order; members of any other type contribute nothing.
  The pair is stored through \<^verbatim>\<open>set\<close>, that is, as \<open>kv_pair2\<close> builds it.
\<close>

theorem add_members_appends:
  assumes "m_valid s"
  shows "\<exists>s'. add_members s r = Inr s'
           \<and> m_map s' = m_map s @ map (\<lambda>mem. kv_pair2 (positive_ref mem) (positive_id r))
                   (filter (\<lambda>mem. member_type mem = item_relation) (members r))
           \<and> length (m_map s') = length (m_map s)
                   + length (filter (\<lambda>mem. member_type mem = item_relation) (members r))
           \<and> m_valid s'"
  using assms by (simp add: add_members_def add_members_loop_eq)

theorem add_members_appends_witness:
  "m_valid RelationsMapStash_new
   \<and> add_members RelationsMapStash_new
        \<lparr>positive_id = 200,
         members = [\<lparr>member_type = item_node, positive_ref = 5\<rparr>,
                    \<lparr>member_type = item_relation, positive_ref = 7\<rparr>,
                    \<lparr>member_type = item_relation, positive_ref = 9\<rparr>,
                    \<lparr>member_type = item_way, positive_ref = 11\<rparr>]\<rparr>
       = Inr \<lparr>m_map = [\<lparr>key = 7, value' = 200\<rparr>, \<lparr>key = 9, value' = 200\<rparr>], m_valid = True\<rparr>"
proof -
  have v: "m_valid RelationsMapStash_new" by (simp add: RelationsMapStash_new_def)
  from add_members_appends [OF v, of "\<lparr>positive_id = 200,
         members = [\<lparr>member_type = item_node, positive_ref = 5\<rparr>,
                    \<lparr>member_type = item_relation, positive_ref = 7\<rparr>,
                    \<lparr>member_type = item_relation, positive_ref = 9\<rparr>,
                    \<lparr>member_type = item_way, positive_ref = 11\<rparr>]\<rparr>"] v
  show ?thesis
    by (auto simp: RelationsMapStash_new_def kv_pair2_def add_members_def)
qed

text \<open>
  C9. For every call \<^verbatim>\<open>add(member_id, parent_id)\<close> on a usable stash, the entry
  stored is (member_id mod 2^32, parent_id mod 2^32): the identifiers are narrowed to 32
  bits without a check, and two calls whose identifiers agree modulo 2^32 leave the same
  stash.
\<close>

theorem add_narrows:
  assumes "m_valid s"
  shows "\<exists>e. add s member_id parent_id = Inr (s\<lparr>m_map := m_map s @ [e]\<rparr>)
           \<and> unat (key e) = unat member_id mod 2 ^ 32
           \<and> unat (value' e) = unat parent_id mod 2 ^ 32
           \<and> (unat member_id' mod 2 ^ 32 = unat member_id mod 2 ^ 32
                \<and> unat parent_id' mod 2 ^ 32 = unat parent_id mod 2 ^ 32
              \<longrightarrow> add s member_id' parent_id' = add s member_id parent_id)"
proof (intro exI [of _ "kv_pair2 member_id parent_id"] conjI impI)
  show "add s member_id parent_id = Inr (s\<lparr>m_map := m_map s @ [kv_pair2 member_id parent_id]\<rparr>)"
    using assms by (simp add: add_def set_kv_def)
  show "unat (key (kv_pair2 member_id parent_id)) = unat member_id mod 2 ^ 32"
    by (simp add: kv_pair2_def unat_narrow)
  show "unat (value' (kv_pair2 member_id parent_id)) = unat parent_id mod 2 ^ 32"
    by (simp add: kv_pair2_def unat_narrow)
next
  assume "unat member_id' mod 2 ^ 32 = unat member_id mod 2 ^ 32
          \<and> unat parent_id' mod 2 ^ 32 = unat parent_id mod 2 ^ 32"
  then have "kv_pair2 member_id' parent_id' = kv_pair2 member_id parent_id"
    by (simp add: kv_pair2_def narrow_eq_iff)
  then show "add s member_id' parent_id' = add s member_id parent_id"
    by (simp add: add_def set_kv_def)
qed

theorem add_narrows_witness:
  "m_valid RelationsMapStash_new
   \<and> add RelationsMapStash_new 4294967297 5 = Inr \<lparr>m_map = [\<lparr>key = 1, value' = 5\<rparr>], m_valid = True\<rparr>
   \<and> add RelationsMapStash_new 1 5 = add RelationsMapStash_new 4294967297 5"
proof -
  have v: "m_valid RelationsMapStash_new" by (simp add: RelationsMapStash_new_def)
  have c: "unat (1 :: unsigned_object_id_type) mod 2 ^ 32 = unat (4294967297 :: unsigned_object_id_type) mod 2 ^ 32
           \<and> unat (5 :: unsigned_object_id_type) mod 2 ^ 32 = unat (5 :: unsigned_object_id_type) mod 2 ^ 32"
    by simp
  from add_narrows [OF v, of 4294967297 5 1 5] c
  have "add RelationsMapStash_new 1 5 = add RelationsMapStash_new 4294967297 5" by blast
  moreover have "add RelationsMapStash_new 4294967297 5
      = Inr \<lparr>m_map = [\<lparr>key = 1, value' = 5\<rparr>], m_valid = True\<rparr>"
    by (simp add: add_def set_kv_def kv_pair2_def RelationsMapStash_new_def)
  ultimately show ?thesis using v by simp
qed

text \<open>
  C8. Once any of the four build operations has completed on a stash, the stash was
  usable before and is marked consumed after, and every later operation on it
  (\<^verbatim>\<open>add\<close>, \<^verbatim>\<open>add_members\<close>, \<^verbatim>\<open>empty\<close>, \<^verbatim>\<open>size\<close> and each build
  operation) ends in the failing assertion, never in a result.
\<close>

theorem use_after_build_asserts:
  assumes "build_index s = Inr (i, s') \<or> build_member_to_parent_index s = Inr (i, s')
         \<or> build_parent_to_member_index s = Inr (i, s') \<or> build_indexes s = Inr (ii, s')"
  shows "m_valid s \<and> \<not> m_valid s'
       \<and> add s' member_id relation_id = Inl AssertionFailed
       \<and> add_members s' r = Inl AssertionFailed
       \<and> empty_stash s' = Inl AssertionFailed
       \<and> size_stash s' = Inl AssertionFailed
       \<and> build_index s' = Inl AssertionFailed
       \<and> build_member_to_parent_index s' = Inl AssertionFailed
       \<and> build_parent_to_member_index s' = Inl AssertionFailed
       \<and> build_indexes s' = Inl AssertionFailed"
proof -
  have "m_valid s \<and> \<not> m_valid s'"
    using assms
    by (auto simp: build_index_def build_member_to_parent_index_def
        build_parent_to_member_index_def build_indexes_def Let_def split: if_splits prod.splits)
  then show ?thesis
    by (simp add: add_def add_members_def empty_stash_def size_stash_def build_index_def
        build_member_to_parent_index_def build_parent_to_member_index_def build_indexes_def)
qed

theorem use_after_build_asserts_witness:
  "build_indexes RelationsMapStash_new
     = Inr (\<lparr>m_member_to_parent = RelationsMapIndex [], m_parent_to_member = RelationsMapIndex []\<rparr>,
            \<lparr>m_map = [], m_valid = False\<rparr>)
   \<and> add \<lparr>m_map = [], m_valid = False\<rparr> 1 2 = Inl AssertionFailed
   \<and> build_indexes \<lparr>m_map = [], m_valid = False\<rparr> = Inl AssertionFailed"
proof -
  have b: "build_indexes RelationsMapStash_new
     = Inr (\<lparr>m_member_to_parent = RelationsMapIndex [], m_parent_to_member = RelationsMapIndex []\<rparr>,
            \<lparr>m_map = [], m_valid = False\<rparr>)"
    by (simp add: build_indexes_def RelationsMapStash_new_def flip_copy_def sort_unique_def)
  then have "build_index RelationsMapStash_new = Inr (RelationsMapIndex [], \<lparr>m_map = [], m_valid = False\<rparr>)
     \<or> build_member_to_parent_index RelationsMapStash_new = Inr (RelationsMapIndex [], \<lparr>m_map = [], m_valid = False\<rparr>)
     \<or> build_parent_to_member_index RelationsMapStash_new = Inr (RelationsMapIndex [], \<lparr>m_map = [], m_valid = False\<rparr>)
     \<or> build_indexes RelationsMapStash_new
          = Inr (\<lparr>m_member_to_parent = RelationsMapIndex [], m_parent_to_member = RelationsMapIndex []\<rparr>,
                 \<lparr>m_map = [], m_valid = False\<rparr>)"
    by simp
  from use_after_build_asserts [OF this, of 1 2] b show ?thesis by simp
qed

text \<open>
  C10. The deprecated operations behave as their replacements: for every index, id,
  visitor and visitor state \<^verbatim>\<open>for_each_parent\<close> makes the calls of
  \<^verbatim>\<open>for_each\<close> in the same order, and for every stash \<^verbatim>\<open>build_index\<close> returns
  what \<^verbatim>\<open>build_member_to_parent_index\<close> returns, index and stash left behind alike.
\<close>

theorem deprecated_same:
  "for_each_parent idx rid func st = for_each idx rid func st
   \<and> build_index s = build_member_to_parent_index s"
  by (simp add: for_each_parent_def for_each_def build_index_def build_member_to_parent_index_def)

theorem deprecated_same_witness:
  "for_each_parent (RelationsMapIndex [\<lparr>key = 1, value' = 100\<rparr>, \<lparr>key = 2, value' = 100\<rparr>]) 1 record_call []
     = Some [100]
   \<and> build_index \<lparr>m_map = [\<lparr>key = 2, value' = 100\<rparr>, \<lparr>key = 1, value' = 100\<rparr>], m_valid = True\<rparr>
     = Inr (RelationsMapIndex [\<lparr>key = 1, value' = 100\<rparr>, \<lparr>key = 2, value' = 100\<rparr>],
            \<lparr>m_map = [], m_valid = False\<rparr>)"
proof -
  have "for_each (RelationsMapIndex [\<lparr>key = 1, value' = 100\<rparr>, \<lparr>key = 2, value' = 100\<rparr>]) 1 record_call []
     = Some [100]"
    by code_simp
  moreover have "build_member_to_parent_index
       \<lparr>m_map = [\<lparr>key = 2, value' = 100\<rparr>, \<lparr>key = 1, value' = 100\<rparr>], m_valid = True\<rparr>
     = Inr (RelationsMapIndex [\<lparr>key = 1, value' = 100\<rparr>, \<lparr>key = 2, value' = 100\<rparr>],
            \<lparr>m_map = [], m_valid = False\<rparr>)"
    by (simp add: build_member_to_parent_index_def sort_unique_def kv_less_def kv_eq_def)
  ultimately show ?thesis
    using deprecated_same [of "RelationsMapIndex [\<lparr>key = 1, value' = 100\<rparr>, \<lparr>key = 2, value' = 100\<rparr>]"
        1 record_call "[]" "\<lparr>m_map = [\<lparr>key = 2, value' = 100\<rparr>, \<lparr>key = 1, value' = 100\<rparr>], m_valid = True\<rparr>"]
    by simp
qed

section \<open>Building both directions\<close>

text \<open>
  C3. For every usable stash, the member-to-parent index inside the result of
  \<^verbatim>\<open>build_indexes\<close> equals the index \<^verbatim>\<open>build_member_to_parent_index\<close> builds
  from the same stash contents, and the parent-to-member index equals the one
  \<^verbatim>\<open>build_parent_to_member_index\<close> builds: the same entries, hence the same
  \<^verbatim>\<open>for_each\<close> results and the same size.
\<close>

theorem build_indexes_matches:
  assumes "m_valid s"
  shows "\<exists>ixs s1 i1 s2 i2 s3.
           build_indexes s = Inr (ixs, s1)
         \<and> build_member_to_parent_index s = Inr (i1, s2)
         \<and> build_parent_to_member_index s = Inr (i2, s3)
         \<and> member_to_parent ixs = i1 \<and> parent_to_member ixs = i2
         \<and> index_map (member_to_parent ixs) = index_map i1
         \<and> index_map (parent_to_member ixs) = index_map i2
         \<and> for_each (member_to_parent ixs) k func st = for_each i1 k func st
         \<and> for_each (parent_to_member ixs) k func st = for_each i2 k func st
         \<and> size_index (member_to_parent ixs) = size_index i1
         \<and> size_index (parent_to_member ixs) = size_index i2"
  using assms
  by (simp add: build_indexes_def build_member_to_parent_index_def build_parent_to_member_index_def
      flip_copy_def flip_copy_loop_eq flip_in_place_def member_to_parent_def parent_to_member_def)

theorem build_indexes_matches_witness:
  "m_valid \<lparr>m_map = [\<lparr>key = 2, value' = 100\<rparr>, \<lparr>key = 1, value' = 100\<rparr>], m_valid = True\<rparr>
   \<and> (\<exists>ixs s1 i1 s2 i2 s3.
         build_indexes \<lparr>m_map = [\<lparr>key = 2, value' = 100\<rparr>, \<lparr>key = 1, value' = 100\<rparr>], m_valid = True\<rparr>
           = Inr (ixs, s1)
       \<and> build_member_to_parent_index
           \<lparr>m_map = [\<lparr>key = 2, value' = 100\<rparr>, \<lparr>key = 1, value' = 100\<rparr>], m_valid = True\<rparr>
           = Inr (i1, s2)
       \<and> build_parent_to_member_index
           \<lparr>m_map = [\<lparr>key = 2, value' = 100\<rparr>, \<lparr>key = 1, value' = 100\<rparr>], m_valid = True\<rparr>
           = Inr (i2, s3)
       \<and> member_to_parent ixs = i1 \<and> parent_to_member ixs = i2)"
proof -
  let ?s = "\<lparr>m_map = [\<lparr>key = 2, value' = 100\<rparr>, \<lparr>key = 1, value' = 100\<rparr>], m_valid = True\<rparr>"
  have v: "m_valid ?s" by simp
  from build_indexes_matches [OF v, of 1 record_call "[]"] v show ?thesis by blast
qed

text \<open>
  C5. For every usable stash, the two indexes returned by \<^verbatim>\<open>build_indexes\<close> have
  the same number of entries, so \<^verbatim>\<open>size()\<close> and \<^verbatim>\<open>empty()\<close> of the pair, which
  ask the member-to-parent side, answer as the parent-to-member side would.
\<close>

theorem build_indexes_sizes:
  assumes "m_valid s"
  shows "\<exists>ixs s'. build_indexes s = Inr (ixs, s')
           \<and> size_index (member_to_parent ixs) = size_index (parent_to_member ixs)
           \<and> size_indexes ixs = size_index (parent_to_member ixs)
           \<and> empty_indexes ixs = empty_index (parent_to_member ixs)"
proof -
  let ?a = "sort_unique (m_map s)" and ?b = "sort_unique (map swap_kv (m_map s))"
  have len: "length ?b = length ?a" by (rule length_sort_unique_flip)
  then have "(?a = []) = (?b = [])" by (metis length_0_conv)
  with len assms show ?thesis
    by (simp add: build_indexes_def flip_copy_def flip_copy_loop_eq member_to_parent_def
        parent_to_member_def size_indexes_def size_index_def size_map_def empty_indexes_def
        empty_index_def empty_map_def)
qed

theorem build_indexes_sizes_witness:
  "m_valid \<lparr>m_map = [\<lparr>key = 2, value' = 100\<rparr>, \<lparr>key = 1, value' = 100\<rparr>, \<lparr>key = 2, value' = 100\<rparr>],
            m_valid = True\<rparr>
   \<and> (\<exists>ixs s'.
         build_indexes \<lparr>m_map = [\<lparr>key = 2, value' = 100\<rparr>, \<lparr>key = 1, value' = 100\<rparr>,
                                  \<lparr>key = 2, value' = 100\<rparr>], m_valid = True\<rparr>
           = Inr (ixs, s')
       \<and> size_index (member_to_parent ixs) = size_index (parent_to_member ixs)
       \<and> size_indexes ixs = size_index (parent_to_member ixs)
       \<and> empty_indexes ixs = empty_index (parent_to_member ixs))"
proof -
  let ?s = "\<lparr>m_map = [\<lparr>key = 2, value' = 100\<rparr>, \<lparr>key = 1, value' = 100\<rparr>, \<lparr>key = 2, value' = 100\<rparr>],
             m_valid = True\<rparr>"
  have v: "m_valid ?s" by simp
  from build_indexes_sizes [OF v] v show ?thesis by blast
qed

section \<open>Lookup by binary search\<close>

declare lower_bound.simps [simp del] upper_bound.simps [simp del] for_each_loop.simps [simp del]

lemma lower_bound_partition:
  "first + len \<le> length xs \<Longrightarrow> first \<le> n \<Longrightarrow> n \<le> first + len
   \<Longrightarrow> (\<And>i. first \<le> i \<Longrightarrow> i < n \<Longrightarrow> key_less (xs ! i) v)
   \<Longrightarrow> (\<And>i. n \<le> i \<Longrightarrow> i < first + len \<Longrightarrow> \<not> key_less (xs ! i) v)
   \<Longrightarrow> lower_bound xs v first len = n"
proof (induction xs v first len rule: lower_bound.induct)
  case (1 xs v first len)
  show ?case
  proof (cases "len = 0")
    case True
    with "1.prems" show ?thesis by (subst lower_bound.simps) simp
  next
    case False
    define half where "half = len div 2"
    define middle where "middle = first + half"
    have hl: "half < len" using False by (simp add: half_def)
    have mid: "first \<le> middle" "middle < first + len" using hl by (simp_all add: middle_def)
    show ?thesis
    proof (cases "key_less (xs ! middle) v")
      case True
      have "middle < n"
      proof (rule ccontr)
        assume "\<not> middle < n"
        then have "n \<le> middle" by simp
        from "1.prems"(5) [OF this mid(2)] True show False by simp
      qed
      have "lower_bound xs v (middle + 1) (len - half - 1) = n"
      proof (rule "1.IH"(1) [OF False half_def middle_def True])
        show "middle + 1 + (len - half - 1) \<le> length xs"
          using "1.prems"(1) hl by (simp add: middle_def)
        show "middle + 1 \<le> n" using \<open>middle < n\<close> by simp
        show "n \<le> middle + 1 + (len - half - 1)"
          using "1.prems"(3) hl by (simp add: middle_def)
        show "key_less (xs ! i) v" if "middle + 1 \<le> i" "i < n" for i
          using that mid "1.prems"(4) [of i] by simp
        show "\<not> key_less (xs ! i) v" if "n \<le> i" "i < middle + 1 + (len - half - 1)" for i
          using that hl "1.prems"(5) [of i] by (simp add: middle_def)
      qed
      then show ?thesis
        using False True
        by (simp add: lower_bound.simps [of xs v first len] Let_def half_def middle_def)
    next
      case nl: False
      have "n \<le> middle"
      proof (rule ccontr)
        assume "\<not> n \<le> middle"
        then have "middle < n" by simp
        from "1.prems"(4) [OF mid(1) this] nl show False by simp
      qed
      have "lower_bound xs v first half = n"
      proof (rule "1.IH"(2) [OF False half_def middle_def nl])
        show "first + half \<le> length xs" using "1.prems"(1) hl by simp
        show "first \<le> n" by (rule "1.prems"(2))
        show "n \<le> first + half" using \<open>n \<le> middle\<close> by (simp add: middle_def)
        show "key_less (xs ! i) v" if "first \<le> i" "i < n" for i
          using that "1.prems"(4) [of i] by simp
        show "\<not> key_less (xs ! i) v" if "n \<le> i" "i < first + half" for i
          using that hl "1.prems"(5) [of i] by simp
      qed
      then show ?thesis
        using False nl
        by (simp add: lower_bound.simps [of xs v first len] Let_def half_def middle_def)
    qed
  qed
qed

lemma upper_bound_partition:
  "first + len \<le> length xs \<Longrightarrow> first \<le> n \<Longrightarrow> n \<le> first + len
   \<Longrightarrow> (\<And>i. first \<le> i \<Longrightarrow> i < n \<Longrightarrow> \<not> key_less v (xs ! i))
   \<Longrightarrow> (\<And>i. n \<le> i \<Longrightarrow> i < first + len \<Longrightarrow> key_less v (xs ! i))
   \<Longrightarrow> upper_bound xs v first len = n"
proof (induction xs v first len rule: upper_bound.induct)
  case (1 xs v first len)
  show ?case
  proof (cases "len = 0")
    case True
    with "1.prems" show ?thesis by (subst upper_bound.simps) simp
  next
    case False
    define half where "half = len div 2"
    define middle where "middle = first + half"
    have hl: "half < len" using False by (simp add: half_def)
    have mid: "first \<le> middle" "middle < first + len" using hl by (simp_all add: middle_def)
    show ?thesis
    proof (cases "key_less v (xs ! middle)")
      case nl: False
      have "middle < n"
      proof (rule ccontr)
        assume "\<not> middle < n"
        then have "n \<le> middle" by simp
        from "1.prems"(5) [OF this mid(2)] nl show False by simp
      qed
      have "upper_bound xs v (middle + 1) (len - half - 1) = n"
      proof (rule "1.IH"(2) [OF False half_def middle_def nl])
        show "middle + 1 + (len - half - 1) \<le> length xs"
          using "1.prems"(1) hl by (simp add: middle_def)
        show "middle + 1 \<le> n" using \<open>middle < n\<close> by simp
        show "n \<le> middle + 1 + (len - half - 1)"
          using "1.prems"(3) hl by (simp add: middle_def)
        show "\<not> key_less v (xs ! i)" if "middle + 1 \<le> i" "i < n" for i
          using that mid "1.prems"(4) [of i] by simp
        show "key_less v (xs ! i)" if "n \<le> i" "i < middle + 1 + (len - half - 1)" for i
          using that hl "1.prems"(5) [of i] by (simp add: middle_def)
      qed
      then show ?thesis
        using False nl
        by (simp add: upper_bound.simps [of xs v first len] Let_def half_def middle_def)
    next
      case True
      have "n \<le> middle"
      proof (rule ccontr)
        assume "\<not> n \<le> middle"
        then have "middle < n" by simp
        from "1.prems"(4) [OF mid(1) this] True show False by simp
      qed
      have "upper_bound xs v first half = n"
      proof (rule "1.IH"(1) [OF False half_def middle_def True])
        show "first + half \<le> length xs" using "1.prems"(1) hl by simp
        show "first \<le> n" by (rule "1.prems"(2))
        show "n \<le> first + half" using \<open>n \<le> middle\<close> by (simp add: middle_def)
        show "\<not> key_less v (xs ! i)" if "first \<le> i" "i < n" for i
          using that "1.prems"(4) [of i] by simp
        show "key_less v (xs ! i)" if "n \<le> i" "i < first + half" for i
          using that hl "1.prems"(5) [of i] by simp
      qed
      then show ?thesis
        using False True
        by (simp add: upper_bound.simps [of xs v first len] Let_def half_def middle_def)
    qed
  qed
qed

lemma lower_bound_append:
  assumes "\<forall>a\<in>set as. key_less a v" "\<forall>b\<in>set bs. \<not> key_less b v"
  shows "lower_bound (as @ bs) v 0 (length (as @ bs)) = length as"
proof (rule lower_bound_partition)
  show "key_less ((as @ bs) ! i) v" if "i < length as" for i
    using that assms(1) by (simp add: nth_append)
  show "\<not> key_less ((as @ bs) ! i) v" if "length as \<le> i" "i < 0 + length (as @ bs)" for i
    using that assms(2) by (simp add: nth_append)
qed simp_all

lemma upper_bound_append:
  assumes "\<forall>a\<in>set as. \<not> key_less v a" "\<forall>b\<in>set bs. key_less v b"
  shows "upper_bound (as @ bs) v 0 (length (as @ bs)) = length as"
proof (rule upper_bound_partition)
  show "\<not> key_less v ((as @ bs) ! i)" if "i < length as" for i
    using that assms(1) by (simp add: nth_append)
  show "key_less v ((as @ bs) ! i)" if "length as \<le> i" "i < 0 + length (as @ bs)" for i
    using that assms(2) by (simp add: nth_append)
qed simp_all

lemma key_sorted_split:
  "sorted_wrt (\<lambda>a b. key a \<le> key b) xs
   \<Longrightarrow> xs = filter (\<lambda>p. key p < c) xs @ filter (\<lambda>p. key p = c) xs @ filter (\<lambda>p. c < key p) xs"
proof (induction xs)
  case Nil
  show ?case by simp
next
  case (Cons x xs)
  then have ih: "xs = filter (\<lambda>p. key p < c) xs @ filter (\<lambda>p. key p = c) xs @ filter (\<lambda>p. c < key p) xs"
    and ge: "\<forall>y\<in>set xs. key x \<le> key y"
    by simp_all
  consider "key x < c" | "key x = c" | "c < key x" by (metis not_less_iff_gr_or_eq)
  then show ?case
  proof cases
    case 1
    then have "key x \<noteq> c" "\<not> c < key x" by auto
    with 1 have "filter (\<lambda>p. key p < c) (x # xs) @ filter (\<lambda>p. key p = c) (x # xs)
          @ filter (\<lambda>p. c < key p) (x # xs)
        = x # (filter (\<lambda>p. key p < c) xs @ filter (\<lambda>p. key p = c) xs @ filter (\<lambda>p. c < key p) xs)"
      by simp
    then show ?thesis using ih by metis
  next
    case 2
    then have e: "filter (\<lambda>p. key p < c) xs = []" using ge by (auto simp: filter_empty_conv)
    from 2 have "filter (\<lambda>p. key p < c) (x # xs) @ filter (\<lambda>p. key p = c) (x # xs)
          @ filter (\<lambda>p. c < key p) (x # xs)
        = x # (filter (\<lambda>p. key p < c) xs @ filter (\<lambda>p. key p = c) xs @ filter (\<lambda>p. c < key p) xs)"
      by (simp add: e)
    then show ?thesis using ih by metis
  next
    case 3
    then have e: "filter (\<lambda>p. key p < c) xs = []" "filter (\<lambda>p. key p = c) xs = []"
      using ge by (auto simp: filter_empty_conv)
    from 3 have "key x \<noteq> c" "\<not> key x < c" by auto
    with 3 have "filter (\<lambda>p. key p < c) (x # xs) @ filter (\<lambda>p. key p = c) (x # xs)
          @ filter (\<lambda>p. c < key p) (x # xs)
        = x # (filter (\<lambda>p. key p < c) xs @ filter (\<lambda>p. key p = c) xs @ filter (\<lambda>p. c < key p) xs)"
      by (simp add: e)
    then show ?thesis using ih by metis
  qed
qed

lemma kv_sorted_key_sorted: "sorted_wrt kv_less xs \<Longrightarrow> sorted_wrt (\<lambda>a b. key a \<le> key b) xs"
  by (erule sorted_wrt_mono_rel [rotated]) (auto simp: kv_less_def)

lemma get_sorted:
  assumes "sorted_wrt kv_less xs"
  shows "get xs k = (length (filter (\<lambda>p. key p < ucast k) xs),
                     length (filter (\<lambda>p. key p < ucast k) xs) + length (filter (\<lambda>p. key p = ucast k) xs))"
proof -
  let ?c = "ucast k :: uint32_t"
  let ?A = "filter (\<lambda>p. key p < ?c) xs" and ?B = "filter (\<lambda>p. key p = ?c) xs"
    and ?C = "filter (\<lambda>p. ?c < key p) xs"
  have split: "xs = ?A @ ?B @ ?C"
    by (rule key_sorted_split [OF kv_sorted_key_sorted [OF assms]])
  have "lower_bound (?A @ (?B @ ?C)) (kv_pair1 k) 0 (length (?A @ (?B @ ?C))) = length ?A"
    by (rule lower_bound_append) (auto simp: key_less_def kv_pair1_def)
  then have lb: "lower_bound xs (kv_pair1 k) 0 (length xs) = length ?A"
    using split by simp
  have "upper_bound ((?A @ ?B) @ ?C) (kv_pair1 k) 0 (length ((?A @ ?B) @ ?C)) = length (?A @ ?B)"
    by (rule upper_bound_append) (auto simp: key_less_def kv_pair1_def)
  then have ub: "upper_bound xs (kv_pair1 k) 0 (length xs) = length ?A + length ?B"
    using split by simp
  show ?thesis by (simp add: get_def lb ub)
qed

lemma for_each_loop_slice:
  "it \<le> e \<Longrightarrow> e \<le> length xs
   \<Longrightarrow> for_each_loop xs it e func st = Some (fold func (map value' (take (e - it) (drop it xs))) st)"
proof (induction xs it e func st rule: for_each_loop.induct)
  case (1 xs it e func st)
  show ?case
  proof (cases "it = e")
    case True
    then show ?thesis by (subst for_each_loop.simps) simp
  next
    case False
    with "1.prems" have lt: "it < e" "it < length xs" by simp_all
    have ih: "for_each_loop xs (Suc it) e func (func (value' (xs ! it)) st)
              = Some (fold func (map value' (take (e - Suc it) (drop (Suc it) xs))) (func (value' (xs ! it)) st))"
      using "1.IH" [OF False lt(2)] lt "1.prems" by simp
    have "take (e - it) (drop it xs) = xs ! it # take (e - Suc it) (drop (Suc it) xs)"
    proof -
      have "e - it = Suc (e - Suc it)" using lt by simp
      moreover have "drop it xs = xs ! it # drop (Suc it) xs"
        using lt by (simp add: Cons_nth_drop_Suc)
      ultimately show ?thesis by simp
    qed
    then show ?thesis
      using False lt ih by (subst for_each_loop.simps) simp
  qed
qed

lemma for_each_sorted:
  assumes "sorted_wrt kv_less (index_map idx)"
  shows "for_each idx k func st
           = Some (fold func (map value' (filter (\<lambda>p. key p = ucast k) (index_map idx))) st)"
proof -
  let ?xs = "index_map idx"
  let ?c = "ucast k :: uint32_t"
  let ?A = "filter (\<lambda>p. key p < ?c) ?xs" and ?B = "filter (\<lambda>p. key p = ?c) ?xs"
    and ?C = "filter (\<lambda>p. ?c < key p) ?xs"
  have split: "?xs = ?A @ ?B @ ?C"
    by (rule key_sorted_split [OF kv_sorted_key_sorted [OF assms]])
  have len: "length ?xs = length ?A + length ?B + length ?C"
    by (subst split) simp
  have "drop (length ?A) ?xs = ?B @ ?C"
    by (subst split) simp
  then have slice: "take (length ?A + length ?B - length ?A) (drop (length ?A) ?xs) = ?B"
    by simp
  have "for_each_loop ?xs (length ?A) (length ?A + length ?B) func st
          = Some (fold func (map value' (take (length ?A + length ?B - length ?A) (drop (length ?A) ?xs))) st)"
    by (rule for_each_loop_slice) (simp_all add: len)
  then show ?thesis
    by (simp only: for_each_def get_sorted [OF assms] Let_def fst_conv snd_conv slice)
qed

lemma fold_record_call: "fold record_call vs acc = acc @ vs"
  by (induction vs arbitrary: acc) (simp_all add: record_call_def)

lemma values_strictly_ascending:
  assumes "sorted_wrt kv_less xs"
  shows "sorted_wrt (<) (map value' (filter (\<lambda>p. key p = c) xs))"
proof -
  have "sorted_wrt kv_less (filter (\<lambda>p. key p = c) xs)"
    using assms by (rule sorted_wrt_filter)
  then have "sorted_wrt (\<lambda>a b. value' a < value' b) (filter (\<lambda>p. key p = c) xs)"
    by (rule sorted_wrt_mono_rel [rotated]) (auto simp: kv_less_def)
  then show ?thesis by (simp add: sorted_wrt_map)
qed

lemma add_all_eq:
  "m_valid s \<Longrightarrow> add_all adds s = Inr (s\<lparr>m_map := m_map s @ map (\<lambda>(k, v). kv_pair2 k v) adds\<rparr>)"
  by (induction adds arbitrary: s) (auto simp: add_def set_kv_def)

section \<open>Queries on a built index\<close>

lemma key_kv_pair2: "key (kv_pair2 k v) = ucast k"
  by (simp add: kv_pair2_def)

lemma value_kv_pair2: "value' (kv_pair2 k v) = ucast v"
  by (simp add: kv_pair2_def)

lemma key_swap_kv: "key (swap_kv p) = value' p"
  by (simp add: swap_kv_def)

lemma value_swap_kv: "value' (swap_kv p) = key p"
  by (simp add: swap_kv_def)

lemma set_filter_values:
  "set (map value' (filter (\<lambda>p. key p = c) (sort_unique (map (\<lambda>(k, v). kv_pair2 k v) adds))))
     = {ucast v |k' v. (k', v) \<in> set adds \<and> (ucast k' :: uint32_t) = c}"
  (is "?L = ?R")
proof (intro set_eqI iffI)
  fix x assume "x \<in> ?L"
  then obtain p where p: "p \<in> set (map (\<lambda>(k, v). kv_pair2 k v) adds)" "key p = c" "x = value' p"
    by (auto simp: set_sort_unique)
  from p(1) obtain k' v where kv: "(k', v) \<in> set adds" "p = kv_pair2 k' v" by auto
  from kv(1) p(2,3) show "x \<in> ?R"
    unfolding kv(2) key_kv_pair2 value_kv_pair2 by blast
next
  fix x assume "x \<in> ?R"
  then obtain k' v where kv: "(k', v) \<in> set adds" "(ucast k' :: uint32_t) = c" "x = ucast v"
    by blast
  have "kv_pair2 k' v \<in> set (map (\<lambda>(k, v). kv_pair2 k v) adds)"
    using kv(1) by force
  moreover have "key (kv_pair2 k' v) = c" "value' (kv_pair2 k' v) = x"
    using kv(2,3) by (simp_all add: key_kv_pair2 value_kv_pair2)
  ultimately show "x \<in> ?L"
    by (force simp: set_sort_unique)
qed

lemma set_filter_keys:
  "set (map value' (filter (\<lambda>p. key p = c)
         (sort_unique (map swap_kv (map (\<lambda>(k, v). kv_pair2 k v) adds)))))
     = {ucast k |k v'. (k, v') \<in> set adds \<and> (ucast v' :: uint32_t) = c}"
  (is "?L = ?R")
proof (intro set_eqI iffI)
  fix x assume "x \<in> ?L"
  then obtain p where p: "p \<in> set (map (\<lambda>(k, v). kv_pair2 k v) adds)"
      "key (swap_kv p) = c" "x = value' (swap_kv p)"
    by (auto simp: set_sort_unique)
  from p(1) obtain k v' where kv: "(k, v') \<in> set adds" "p = kv_pair2 k v'" by auto
  from kv(1) p(2,3) show "x \<in> ?R"
    unfolding kv(2) key_swap_kv value_swap_kv key_kv_pair2 value_kv_pair2 by blast
next
  fix x assume "x \<in> ?R"
  then obtain k v' where kv: "(k, v') \<in> set adds" "(ucast v' :: uint32_t) = c" "x = ucast k"
    by blast
  have "swap_kv (kv_pair2 k v') \<in> set (map swap_kv (map (\<lambda>(k, v). kv_pair2 k v) adds))"
    using kv(1) by force
  moreover have "key (swap_kv (kv_pair2 k v')) = c" "value' (swap_kv (kv_pair2 k v')) = x"
    using kv(2,3) by (simp_all add: key_swap_kv value_swap_kv key_kv_pair2 value_kv_pair2)
  ultimately show "x \<in> ?L"
    by (force simp: set_sort_unique)
qed

text \<open>
  C1, as amended. For every sequence of \<^verbatim>\<open>add(k, v)\<close> calls on a fresh stash followed by
  \<^verbatim>\<open>build_member_to_parent_index\<close>, \<^verbatim>\<open>for_each(k, visitor)\<close> on the index
  returns after calling the visitor exactly once per distinct 32-bit value \<open>v mod 2^32\<close>
  among the added pairs whose key is congruent to \<open>k\<close> modulo \<open>2^32\<close>, in strictly
  ascending order, however often a pair was added; a key congruent to no added key gets
  no call. When every identifier is below \<open>2^32\<close> the values visited, widened again,
  are exactly the values added with key \<open>k\<close>.
\<close>

theorem for_each_member_to_parent:
  "\<exists>s idx s' calls.
      add_all adds RelationsMapStash_new = Inr s
    \<and> build_member_to_parent_index s = Inr (idx, s')
    \<and> for_each idx k record_call [] = Some calls
    \<and> for_each idx k func st = Some (fold func calls st)
    \<and> sorted_wrt (<) calls
    \<and> set calls = {ucast v |k' v. (k', v) \<in> set adds \<and> (ucast k' :: uint32_t) = ucast k}
    \<and> ((\<forall>(k', v)\<in>set adds. (ucast k' :: uint32_t) \<noteq> ucast k) \<longrightarrow> calls = [])
    \<and> ((\<forall>(k', v)\<in>set adds. unat k' < 2 ^ 32 \<and> unat v < 2 ^ 32) \<and> unat k < 2 ^ 32
          \<longrightarrow> set (map ucast calls) = {v. (k, v) \<in> set adds})"
proof -
  let ?m = "map (\<lambda>(k, v). kv_pair2 k v) adds"
  let ?s = "RelationsMapStash_new\<lparr>m_map := ?m\<rparr>"
  let ?idx = "RelationsMapIndex (sort_unique ?m)"
  let ?calls = "map value' (filter (\<lambda>p. key p = ucast k) (sort_unique ?m))"
  have a: "add_all adds RelationsMapStash_new = Inr ?s"
    using add_all_eq [of RelationsMapStash_new adds] by (simp add: RelationsMapStash_new_def)
  have b: "build_member_to_parent_index ?s = Inr (?idx, ?s\<lparr>m_map := [], m_valid := False\<rparr>)"
    by (simp add: build_member_to_parent_index_def RelationsMapStash_new_def)
  have srt: "sorted_wrt kv_less (index_map ?idx)" by (simp add: sorted_sort_unique)
  have c: "for_each ?idx k record_call [] = Some ?calls"
    using for_each_sorted [OF srt, of k record_call "[]"] by (simp add: fold_record_call)
  have d: "for_each ?idx k func st = Some (fold func ?calls st)"
    using for_each_sorted [OF srt, of k func st] by simp
  have e: "sorted_wrt (<) ?calls"
    by (rule values_strictly_ascending [OF sorted_sort_unique])
  have f: "set ?calls = {ucast v |k' v. (k', v) \<in> set adds \<and> (ucast k' :: uint32_t) = ucast k}"
    by (rule set_filter_values)
  have g: "?calls = []" if "\<forall>(k', v)\<in>set adds. (ucast k' :: uint32_t) \<noteq> ucast k"
  proof -
    have "set ?calls = {}" unfolding f using that by auto
    then show ?thesis by (simp only: set_empty)
  qed
  have h: "set (map ucast ?calls) = {v. (k, v) \<in> set adds}"
    if "(\<forall>(k', v)\<in>set adds. unat k' < 2 ^ 32 \<and> unat v < 2 ^ 32) \<and> unat k < 2 ^ 32"
  proof -
    have "set (map ucast ?calls) = ucast ` set ?calls" by (simp only: set_map)
    also have "\<dots> = {ucast (ucast v :: uint32_t) |k' v. (k', v) \<in> set adds \<and> (ucast k' :: uint32_t) = ucast k}"
      unfolding f by auto
    also have "\<dots> = {v. (k, v) \<in> set adds}"
    proof (intro set_eqI iffI)
      fix x :: unsigned_object_id_type
      assume "x \<in> {ucast (ucast v :: uint32_t) |k' v. (k', v) \<in> set adds \<and> (ucast k' :: uint32_t) = ucast k}"
      then obtain k' v where kv: "(k', v) \<in> set adds" "(ucast k' :: uint32_t) = ucast k"
          "x = ucast (ucast v :: uint32_t)"
        by blast
      from that kv(1) have r: "unat k' < 2 ^ 32" "unat v < 2 ^ 32" "unat k < 2 ^ 32" by auto
      have "k' = k" using kv(2) narrow_inj [OF r(1) r(3)] by simp
      moreover have "x = v" using kv(3) widen_narrow [OF r(2)] by simp
      ultimately show "x \<in> {v. (k, v) \<in> set adds}" using kv(1) by simp
    next
      fix x :: unsigned_object_id_type
      assume "x \<in> {v. (k, v) \<in> set adds}"
      then have m: "(k, x) \<in> set adds" by simp
      with that have "unat x < 2 ^ 32" by auto
      then have "x = ucast (ucast x :: uint32_t)" by (simp only: widen_narrow)
      with m show "x \<in> {ucast (ucast v :: uint32_t) |k' v. (k', v) \<in> set adds \<and> (ucast k' :: uint32_t) = ucast k}"
        by blast
    qed
    finally show ?thesis .
  qed
  show ?thesis
  proof (intro exI conjI impI)
    show "add_all adds RelationsMapStash_new = Inr ?s" by (rule a)
    show "build_member_to_parent_index ?s = Inr (?idx, ?s\<lparr>m_map := [], m_valid := False\<rparr>)" by (rule b)
    show "for_each ?idx k record_call [] = Some ?calls" by (rule c)
    show "for_each ?idx k func st = Some (fold func ?calls st)" by (rule d)
    show "sorted_wrt (<) ?calls" by (rule e)
    show "set ?calls = {ucast v |k' v. (k', v) \<in> set adds \<and> (ucast k' :: uint32_t) = ucast k}" by (rule f)
    show "?calls = []" if "\<forall>(k', v)\<in>set adds. (ucast k' :: uint32_t) \<noteq> ucast k"
      using that by (rule g)
    show "set (map ucast ?calls) = {v. (k, v) \<in> set adds}"
      if "(\<forall>(k', v)\<in>set adds. unat k' < 2 ^ 32 \<and> unat v < 2 ^ 32) \<and> unat k < 2 ^ 32"
      using that by (rule h)
  qed
qed

theorem for_each_member_to_parent_witness:
  "(\<exists>s idx s' calls.
       add_all [(1, 100), (2, 100), (1, 100), (3, 200)] RelationsMapStash_new = Inr s
     \<and> build_member_to_parent_index s = Inr (idx, s')
     \<and> for_each idx 1 record_call [] = Some calls
     \<and> set (map ucast calls) = {100 :: unsigned_object_id_type})
   \<and> (\<exists>s idx s' calls.
       add_all [(1, 100), (2, 100), (1, 100), (3, 200)] RelationsMapStash_new = Inr s
     \<and> build_member_to_parent_index s = Inr (idx, s')
     \<and> for_each idx 11 record_call [] = Some calls
     \<and> calls = [])"
proof -
  let ?ex = "[(1, 100), (2, 100), (1, 100), (3, 200)] :: (unsigned_object_id_type \<times> unsigned_object_id_type) list"
  have p1: "(\<forall>(k', v)\<in>set ?ex. unat k' < 2 ^ 32 \<and> unat v < 2 ^ 32) \<and> unat (1 :: unsigned_object_id_type) < 2 ^ 32"
    by simp
  have q1: "{v. (1, v) \<in> set ?ex} = {100}" by auto
  have p2: "\<forall>(k', v)\<in>set ?ex. (ucast k' :: uint32_t) \<noteq> ucast (11 :: unsigned_object_id_type)"
    by simp
  have "\<exists>s idx s' calls.
       add_all ?ex RelationsMapStash_new = Inr s
     \<and> build_member_to_parent_index s = Inr (idx, s')
     \<and> for_each idx 1 record_call [] = Some calls
     \<and> set (map ucast calls) = {100 :: unsigned_object_id_type}"
    using for_each_member_to_parent [of ?ex 1 record_call "[]"] p1 unfolding q1 by blast
  moreover have "\<exists>s idx s' calls.
       add_all ?ex RelationsMapStash_new = Inr s
     \<and> build_member_to_parent_index s = Inr (idx, s')
     \<and> for_each idx 11 record_call [] = Some calls
     \<and> calls = []"
    using for_each_member_to_parent [of ?ex 11 record_call "[]"] p2 by blast
  ultimately show ?thesis by (rule conjI)
qed

text \<open>
  C1 as stated fails on identifiers of 33 bits or more. After
  \<^verbatim>\<open>add(4294967297, 5); add(4294967297, 4294967301)\<close> the key \<open>1\<close> was never added,
  yet \<^verbatim>\<open>for_each(1)\<close> calls the visitor once; and two distinct values were added
  with key \<open>4294967297\<close>, yet \<^verbatim>\<open>for_each(4294967297)\<close> calls the visitor once.
\<close>

theorem for_each_member_to_parent_counterexample:
  "add_all [(4294967297, 5), (4294967297, 4294967301)] RelationsMapStash_new
     = Inr \<lparr>m_map = [\<lparr>key = 1, value' = 5\<rparr>, \<lparr>key = 1, value' = 5\<rparr>], m_valid = True\<rparr>
   \<and> build_member_to_parent_index
       \<lparr>m_map = [\<lparr>key = 1, value' = 5\<rparr>, \<lparr>key = 1, value' = 5\<rparr>], m_valid = True\<rparr>
     = Inr (RelationsMapIndex [\<lparr>key = 1, value' = 5\<rparr>], \<lparr>m_map = [], m_valid = False\<rparr>)
   \<and> (1 :: unsigned_object_id_type) \<notin> fst ` set [(4294967297, 5), (4294967297, 4294967301)]
   \<and> for_each (RelationsMapIndex [\<lparr>key = 1, value' = 5\<rparr>]) 1 record_call [] = Some [5]
   \<and> (5 :: unsigned_object_id_type) \<noteq> 4294967301
   \<and> for_each (RelationsMapIndex [\<lparr>key = 1, value' = 5\<rparr>]) 4294967297 record_call [] = Some [5]"
proof (intro conjI)
  show "add_all [(4294967297, 5), (4294967297, 4294967301)] RelationsMapStash_new
     = Inr \<lparr>m_map = [\<lparr>key = 1, value' = 5\<rparr>, \<lparr>key = 1, value' = 5\<rparr>], m_valid = True\<rparr>"
    by (simp add: add_def set_kv_def kv_pair2_def RelationsMapStash_new_def)
  show "build_member_to_parent_index
       \<lparr>m_map = [\<lparr>key = 1, value' = 5\<rparr>, \<lparr>key = 1, value' = 5\<rparr>], m_valid = True\<rparr>
     = Inr (RelationsMapIndex [\<lparr>key = 1, value' = 5\<rparr>], \<lparr>m_map = [], m_valid = False\<rparr>)"
    by (simp add: build_member_to_parent_index_def sort_unique_def kv_less_def kv_eq_def)
  show "(1 :: unsigned_object_id_type) \<notin> fst ` set [(4294967297, 5), (4294967297, 4294967301)]"
    by simp
  show "for_each (RelationsMapIndex [\<lparr>key = 1, value' = 5\<rparr>]) 1 record_call [] = Some [5]"
    by code_simp
  show "(5 :: unsigned_object_id_type) \<noteq> 4294967301" by simp
  show "for_each (RelationsMapIndex [\<lparr>key = 1, value' = 5\<rparr>]) 4294967297 record_call [] = Some [5]"
    by code_simp
qed

text \<open>
  C2, as amended. For every sequence of \<^verbatim>\<open>add(k, v)\<close> calls on a fresh stash followed by
  \<^verbatim>\<open>build_parent_to_member_index\<close>, \<^verbatim>\<open>for_each(v, visitor)\<close> on the index
  returns after calling the visitor exactly once per distinct 32-bit key \<open>k mod 2^32\<close>
  among the added pairs whose value is congruent to \<open>v\<close> modulo \<open>2^32\<close>, in
  strictly ascending order, and with nothing else. When every identifier is below
  \<open>2^32\<close> the keys visited, widened again, are exactly the keys added with value \<open>v\<close>:
  the inverse relation.
\<close>

theorem for_each_parent_to_member:
  "\<exists>s idx s' calls.
      add_all adds RelationsMapStash_new = Inr s
    \<and> build_parent_to_member_index s = Inr (idx, s')
    \<and> for_each idx v record_call [] = Some calls
    \<and> for_each idx v func st = Some (fold func calls st)
    \<and> sorted_wrt (<) calls
    \<and> set calls = {ucast k |k v'. (k, v') \<in> set adds \<and> (ucast v' :: uint32_t) = ucast v}
    \<and> ((\<forall>(k, v')\<in>set adds. unat k < 2 ^ 32 \<and> unat v' < 2 ^ 32) \<and> unat v < 2 ^ 32
          \<longrightarrow> set (map ucast calls) = {k. (k, v) \<in> set adds})"
proof -
  let ?m = "map (\<lambda>(k, v). kv_pair2 k v) adds"
  let ?s = "RelationsMapStash_new\<lparr>m_map := ?m\<rparr>"
  let ?idx = "RelationsMapIndex (sort_unique (map swap_kv ?m))"
  let ?calls = "map value' (filter (\<lambda>p. key p = ucast v) (sort_unique (map swap_kv ?m)))"
  have a: "add_all adds RelationsMapStash_new = Inr ?s"
    using add_all_eq [of RelationsMapStash_new adds] by (simp add: RelationsMapStash_new_def)
  have b: "build_parent_to_member_index ?s = Inr (?idx, ?s\<lparr>m_map := [], m_valid := False\<rparr>)"
    by (simp add: build_parent_to_member_index_def RelationsMapStash_new_def flip_in_place_def)
  have srt: "sorted_wrt kv_less (index_map ?idx)" by (simp add: sorted_sort_unique)
  have c: "for_each ?idx v record_call [] = Some ?calls"
    using for_each_sorted [OF srt, of v record_call "[]"] by (simp add: fold_record_call)
  have d: "for_each ?idx v func st = Some (fold func ?calls st)"
    using for_each_sorted [OF srt, of v func st] by simp
  have e: "sorted_wrt (<) ?calls"
    by (rule values_strictly_ascending [OF sorted_sort_unique])
  have f: "set ?calls = {ucast k |k v'. (k, v') \<in> set adds \<and> (ucast v' :: uint32_t) = ucast v}"
    by (rule set_filter_keys)
  have h: "set (map ucast ?calls) = {k. (k, v) \<in> set adds}"
    if "(\<forall>(k, v')\<in>set adds. unat k < 2 ^ 32 \<and> unat v' < 2 ^ 32) \<and> unat v < 2 ^ 32"
  proof -
    have "set (map ucast ?calls) = ucast ` set ?calls" by (simp only: set_map)
    also have "\<dots> = {ucast (ucast k :: uint32_t) |k v'. (k, v') \<in> set adds \<and> (ucast v' :: uint32_t) = ucast v}"
      unfolding f by auto
    also have "\<dots> = {k. (k, v) \<in> set adds}"
    proof (intro set_eqI iffI)
      fix x :: unsigned_object_id_type
      assume "x \<in> {ucast (ucast k :: uint32_t) |k v'. (k, v') \<in> set adds \<and> (ucast v' :: uint32_t) = ucast v}"
      then obtain k v' where kv: "(k, v') \<in> set adds" "(ucast v' :: uint32_t) = ucast v"
          "x = ucast (ucast k :: uint32_t)"
        by blast
      from that kv(1) have r: "unat k < 2 ^ 32" "unat v' < 2 ^ 32" "unat v < 2 ^ 32" by auto
      have "v' = v" using kv(2) narrow_inj [OF r(2) r(3)] by simp
      moreover have "x = k" using kv(3) widen_narrow [OF r(1)] by simp
      ultimately show "x \<in> {k. (k, v) \<in> set adds}" using kv(1) by simp
    next
      fix x :: unsigned_object_id_type
      assume "x \<in> {k. (k, v) \<in> set adds}"
      then have m: "(x, v) \<in> set adds" by simp
      with that have "unat x < 2 ^ 32" by auto
      then have "x = ucast (ucast x :: uint32_t)" by (simp only: widen_narrow)
      with m show "x \<in> {ucast (ucast k :: uint32_t) |k v'. (k, v') \<in> set adds \<and> (ucast v' :: uint32_t) = ucast v}"
        by blast
    qed
    finally show ?thesis .
  qed
  show ?thesis
  proof (intro exI conjI impI)
    show "add_all adds RelationsMapStash_new = Inr ?s" by (rule a)
    show "build_parent_to_member_index ?s = Inr (?idx, ?s\<lparr>m_map := [], m_valid := False\<rparr>)" by (rule b)
    show "for_each ?idx v record_call [] = Some ?calls" by (rule c)
    show "for_each ?idx v func st = Some (fold func ?calls st)" by (rule d)
    show "sorted_wrt (<) ?calls" by (rule e)
    show "set ?calls = {ucast k |k v'. (k, v') \<in> set adds \<and> (ucast v' :: uint32_t) = ucast v}" by (rule f)
    show "set (map ucast ?calls) = {k. (k, v) \<in> set adds}"
      if "(\<forall>(k, v')\<in>set adds. unat k < 2 ^ 32 \<and> unat v' < 2 ^ 32) \<and> unat v < 2 ^ 32"
      using that by (rule h)
  qed
qed

theorem for_each_parent_to_member_witness:
  "\<exists>s idx s' calls.
       add_all [(1, 100), (2, 100), (1, 100), (3, 200)] RelationsMapStash_new = Inr s
     \<and> build_parent_to_member_index s = Inr (idx, s')
     \<and> for_each idx 100 record_call [] = Some calls
     \<and> set (map ucast calls) = {1, 2 :: unsigned_object_id_type}"
proof -
  let ?ex = "[(1, 100), (2, 100), (1, 100), (3, 200)] :: (unsigned_object_id_type \<times> unsigned_object_id_type) list"
  have p1: "(\<forall>(k, v')\<in>set ?ex. unat k < 2 ^ 32 \<and> unat v' < 2 ^ 32) \<and> unat (100 :: unsigned_object_id_type) < 2 ^ 32"
    by simp
  have q1: "{k. (k, 100) \<in> set ?ex} = {1, 2}" by auto
  show ?thesis
    using for_each_parent_to_member [of ?ex 100 record_call "[]"] p1 unfolding q1 by blast
qed

text \<open>
  C2 as stated fails on identifiers of 33 bits or more. After
  \<^verbatim>\<open>add(1, 4294967303); add(4294967297, 4294967303)\<close> no pair has the value \<open>7\<close>,
  yet \<^verbatim>\<open>for_each(7)\<close> on the parent-to-member index calls the visitor once; and two
  distinct keys were added with value \<open>4294967303\<close>, yet \<^verbatim>\<open>for_each(4294967303)\<close>
  calls the visitor once.
\<close>

theorem for_each_parent_to_member_counterexample:
  "add_all [(1, 4294967303), (4294967297, 4294967303)] RelationsMapStash_new
     = Inr \<lparr>m_map = [\<lparr>key = 1, value' = 7\<rparr>, \<lparr>key = 1, value' = 7\<rparr>], m_valid = True\<rparr>
   \<and> build_parent_to_member_index
       \<lparr>m_map = [\<lparr>key = 1, value' = 7\<rparr>, \<lparr>key = 1, value' = 7\<rparr>], m_valid = True\<rparr>
     = Inr (RelationsMapIndex [\<lparr>key = 7, value' = 1\<rparr>], \<lparr>m_map = [], m_valid = False\<rparr>)
   \<and> (7 :: unsigned_object_id_type) \<notin> snd ` set [(1, 4294967303), (4294967297, 4294967303)]
   \<and> for_each (RelationsMapIndex [\<lparr>key = 7, value' = 1\<rparr>]) 7 record_call [] = Some [1]
   \<and> (1 :: unsigned_object_id_type) \<noteq> 4294967297
   \<and> for_each (RelationsMapIndex [\<lparr>key = 7, value' = 1\<rparr>]) 4294967303 record_call [] = Some [1]"
proof (intro conjI)
  show "add_all [(1, 4294967303), (4294967297, 4294967303)] RelationsMapStash_new
     = Inr \<lparr>m_map = [\<lparr>key = 1, value' = 7\<rparr>, \<lparr>key = 1, value' = 7\<rparr>], m_valid = True\<rparr>"
    by (simp add: add_def set_kv_def kv_pair2_def RelationsMapStash_new_def)
  show "build_parent_to_member_index
       \<lparr>m_map = [\<lparr>key = 1, value' = 7\<rparr>, \<lparr>key = 1, value' = 7\<rparr>], m_valid = True\<rparr>
     = Inr (RelationsMapIndex [\<lparr>key = 7, value' = 1\<rparr>], \<lparr>m_map = [], m_valid = False\<rparr>)"
    by (simp add: build_parent_to_member_index_def flip_in_place_def swap_kv_def sort_unique_def
        kv_less_def kv_eq_def)
  show "(7 :: unsigned_object_id_type) \<notin> snd ` set [(1, 4294967303), (4294967297, 4294967303)]"
    by simp
  show "for_each (RelationsMapIndex [\<lparr>key = 7, value' = 1\<rparr>]) 7 record_call [] = Some [1]"
    by code_simp
  show "(1 :: unsigned_object_id_type) \<noteq> 4294967297" by simp
  show "for_each (RelationsMapIndex [\<lparr>key = 7, value' = 1\<rparr>]) 4294967303 record_call [] = Some [1]"
    by code_simp
qed

end
